theory Spec2Isabelle
  imports Main "HOL-Library.AList" "HOL-Library.Sublist"
begin

section \<open>Go values shared by all packages\<close>

text \<open>
  A Go map is a reference: assigning it, appending it to a slice or returning it copies
  the reference and never the entries. Map objects therefore live in a heap and are
  named by a \<open>ref\<close>. The entries of one map object are an association list whose order is
  the order in which \<open>range\<close> visits them (Go leaves that order open, so every order is a
  possible input); the keys of a well-formed map are distinct.
\<close>

type_synonym ref = nat

text \<open>
  The errors of the sources as values. \<open>IndexOutOfRange\<close> and \<open>NilMapAssignment\<close> are Go's
  run-time panics; the others are the \<open>error\<close> values the init functions return.
\<close>

datatype error =
    IndexOutOfRange
  | AlreadyInitialised
  | KeyCollision string
  | CapExceeded
  | NilMapAssignment
  | IOError

text \<open>\<open>m[k]\<close> on a \<open>map[string]string\<close>: a missing key reads as the empty string.\<close>

definition str_at :: "(string \<times> string) list \<Rightarrow> string \<Rightarrow> string" where
  "str_at m k = (case map_of m k of None \<Rightarrow> [] | Some v \<Rightarrow> v)"

text \<open>\<open>keys[key]\<close> on a \<open>map[string]bool\<close>: a missing key reads as \<open>false\<close>.\<close>

definition flag_at :: "(string \<rightharpoonup> bool) \<Rightarrow> string \<Rightarrow> bool" where
  "flag_at m k = (case m k of None \<Rightarrow> False | Some b \<Rightarrow> b)"

section \<open>Go's \<open>strings\<close> package, as far as the sources call it\<close>

definition isSpace :: "char \<Rightarrow> bool" where
  "isSpace c = (c \<in> set [CHR 0x09, CHR 0x0A, CHR 0x0B, CHR 0x0C, CHR 0x0D, CHR 0x20])"

definition TrimSpace :: "string \<Rightarrow> string" where
  "TrimSpace s = rev (dropWhile isSpace (rev (dropWhile isSpace s)))"

text \<open>\<open>strings.Split(s, " ")\<close>: cuts at every single space; the result is never empty.\<close>

fun Split :: "string \<Rightarrow> string list" where
  "Split [] = [[]]"
| "Split (c # cs) =
     (if c = CHR 0x20 then [] # Split cs
      else (case Split cs of [] \<Rightarrow> [[c]] | w # ws \<Rightarrow> (c # w) # ws))"

text \<open>ASCII case folding; every other byte passes through unchanged.\<close>

definition lower_char :: "char \<Rightarrow> char" where
  "lower_char c =
     (case map_of (zip ''ABCDEFGHIJKLMNOPQRSTUVWXYZ'' ''abcdefghijklmnopqrstuvwxyz'') c of
        None \<Rightarrow> c
      | Some d \<Rightarrow> d)"

definition ToLower :: "string \<Rightarrow> string" where
  "ToLower s = map lower_char s"

section \<open>Package hermes, file of the FTS searches\<close>

text \<open>
  Modelled from the spec: \<open>_Contains\<close> and \<open>_ContainsIgnoreCase\<close> are called by the searches
  but their bodies are not in the sources. The spec describes the first as "contains
  \<open>query\<close>" on index tokens and the second as "contain \<open>query\<close> as a case-insensitive
  substring": \<open>Contains s q\<close> holds when \<open>q\<close> is a contiguous part of \<open>s\<close>.
\<close>

fun Contains :: "string \<Rightarrow> string \<Rightarrow> bool" where
  "Contains [] q = (q = [])"
| "Contains (c # s) q = (prefix q (c # s) \<or> Contains s q)"

text \<open>Modelled from the spec: \<open>_ContainsIgnoreCase\<close> (not in the sources), containment after ASCII case folding of both strings.\<close>

definition ContainsIgnoreCase :: "string \<Rightarrow> string \<Rightarrow> bool" where
  "ContainsIgnoreCase s q = Contains (ToLower s) (ToLower q)"

text \<open>
  The \<open>FTS\<close> struct, as its uses show it: \<open>json\<close> is a slice of \<open>map[string]string\<close>
  (so a list of references into the heap of record maps), \<open>keys\<close> the slice of index
  tokens in insertion order, \<open>cache\<close> the map from a token to the slice of positions in
  \<open>json\<close>. The mutex is not modelled: every function below is the body that runs under
  the read lock.
\<close>

type_synonym jheap = "ref \<Rightarrow> (string \<times> string) list"

record FTS =
  json :: "ref list"
  keys :: "string list"
  cache :: "string \<rightharpoonup> int list"

text \<open>\<open>fts.json[i]\<close>: Go panics when the index is out of range.\<close>

definition json_at :: "FTS \<Rightarrow> int \<Rightarrow> error + ref" where
  "json_at fts i =
     (if 0 \<le> i \<and> i < int (length (json fts)) then Inr (json fts ! nat i)
      else Inl IndexOutOfRange)"

text \<open>\<open>fts.cache[k]\<close>: a missing token reads as the nil slice.\<close>

definition cache_at :: "FTS \<Rightarrow> string \<Rightarrow> int list" where
  "cache_at fts k = (case cache fts k of None \<Rightarrow> [] | Some p \<Rightarrow> p)"

text \<open>The positions \<open>fts.json[i]\<close> accepts.\<close>

definition in_range :: "FTS \<Rightarrow> int \<Rightarrow> bool" where
  "in_range fts i = (0 \<le> i \<and> i < int (length (json fts)))"

text \<open>The loop of the strict branch of \<open>_Search\<close> over the posting.\<close>

fun strict_loop :: "FTS \<Rightarrow> int list \<Rightarrow> ref list \<Rightarrow> error + ref list" where
  "strict_loop fts [] result = Inr result"
| "strict_loop fts (i # rest) result =
     (case json_at fts i of
        Inl e \<Rightarrow> Inl e
      | Inr r \<Rightarrow> strict_loop fts rest (result @ [r]))"

text \<open>
  The inner loop of the non-strict branch over one posting. \<open>indices\<close> is the marker
  slice of length \<open>len(fts.json)\<close>: a position already returned holds \<open>-1\<close>.
\<close>

fun posting_loop ::
  "FTS \<Rightarrow> int list \<Rightarrow> ref list \<times> int list \<Rightarrow> error + ref list \<times> int list" where
  "posting_loop fts [] st = Inr st"
| "posting_loop fts (index # rest) (result, indices) =
     (if index < 0 \<or> int (length indices) \<le> index then Inl IndexOutOfRange
      else if indices ! nat index = - 1 then posting_loop fts rest (result, indices)
      else (case json_at fts index of
              Inl e \<Rightarrow> Inl e
            | Inr r \<Rightarrow> posting_loop fts rest (result @ [r], indices[nat index := - 1])))"

text \<open>The outer loop of the non-strict branch over \<open>fts.keys\<close>.\<close>

fun keys_loop ::
  "FTS \<Rightarrow> string \<Rightarrow> int \<Rightarrow> string list \<Rightarrow> ref list \<times> int list \<Rightarrow> error + ref list \<times> int list"
  where
  "keys_loop fts query limit [] st = Inr st"
| "keys_loop fts query limit (k # ks) (result, indices) =
     (if int (length result) \<ge> limit then Inr (result, indices)
      else if \<not> Contains k query then keys_loop fts query limit ks (result, indices)
      else (case posting_loop fts (cache_at fts k) (result, indices) of
              Inl e \<Rightarrow> Inl e
            | Inr st \<Rightarrow> keys_loop fts query limit ks st))"

text \<open>\<open>FTS._Search\<close> (and \<open>FTS.Search\<close>, which only takes the lock around it).\<close>

definition Search :: "FTS \<Rightarrow> string \<Rightarrow> int \<Rightarrow> bool \<Rightarrow> error + ref list \<times> int list" where
  "Search fts query limit strict =
     (if length query = 0 then Inr ([], [])
      else if strict then
        (case cache fts query of
           None \<Rightarrow> Inr ([], replicate (length (json fts)) 0)
         | Some indices \<Rightarrow>
             (case strict_loop fts indices [] of
                Inl e \<Rightarrow> Inl e
              | Inr result \<Rightarrow> Inr (result, indices)))
      else keys_loop fts query limit (keys fts) ([], replicate (length (json fts)) 0))"

text \<open>
  The loop of \<open>_SearchWithSpaces\<close> over the fields of one record of a word's result:
  the record is appended once for every field that is named in \<open>keys\<close> and whose value
  contains the whole \<open>query\<close>.
\<close>

fun fields_loop ::
  "(string \<rightharpoonup> bool) \<Rightarrow> string \<Rightarrow> ref \<Rightarrow> (string \<times> string) list \<Rightarrow> ref list \<Rightarrow> ref list" where
  "fields_loop ks query r [] result = result"
| "fields_loop ks query r ((key, v) # rest) result =
     (if \<not> flag_at ks key then fields_loop ks query r rest result
      else if Contains v query then fields_loop ks query r rest (result @ [r])
      else fields_loop ks query r rest result)"

fun records_loop ::
  "jheap \<Rightarrow> (string \<rightharpoonup> bool) \<Rightarrow> string \<Rightarrow> ref list \<Rightarrow> ref list \<Rightarrow> ref list" where
  "records_loop h ks query [] result = result"
| "records_loop h ks query (r # rest) result =
     records_loop h ks query rest (fields_loop ks query r (h r) result)"

fun words_loop ::
  "FTS \<Rightarrow> jheap \<Rightarrow> (string \<rightharpoonup> bool) \<Rightarrow> string \<Rightarrow> int \<Rightarrow> bool \<Rightarrow> string list \<Rightarrow> ref list
     \<Rightarrow> error + ref list" where
  "words_loop fts h ks query limit strict [] result = Inr result"
| "words_loop fts h ks query limit strict (w # ws) result =
     (case Search fts w limit strict of
        Inl e \<Rightarrow> Inl e
      | Inr (queryResult, _) \<Rightarrow>
          words_loop fts h ks query limit strict ws (records_loop h ks query queryResult result))"

text \<open>\<open>FTS._SearchWithSpaces\<close>.\<close>

definition SearchWithSpaces ::
  "FTS \<Rightarrow> jheap \<Rightarrow> string \<Rightarrow> int \<Rightarrow> bool \<Rightarrow> (string \<rightharpoonup> bool) \<Rightarrow> error + ref list \<times> int list"
  where
  "SearchWithSpaces fts h query limit strict ks =
     (let words = Split (TrimSpace query) in
      if length words = 0 then Inr ([], [])
      else if length words = 1 then Search fts (words ! 0) limit strict
      else (case words_loop fts h ks query limit strict words [] of
              Inl e \<Rightarrow> Inl e
            | Inr result \<Rightarrow> Inr (result, [])))"

text \<open>\<open>FTS._SearchInJsonWithKey\<close>: \<open>limit\<close> is a parameter and is never read.\<close>

fun with_key_loop :: "jheap \<Rightarrow> string \<Rightarrow> string \<Rightarrow> ref list \<Rightarrow> ref list \<Rightarrow> ref list" where
  "with_key_loop h query key [] result = result"
| "with_key_loop h query key (r # rest) result =
     (if ContainsIgnoreCase (str_at (h r) key) query
      then with_key_loop h query key rest (result @ [r])
      else with_key_loop h query key rest result)"

definition SearchInJsonWithKey :: "FTS \<Rightarrow> jheap \<Rightarrow> string \<Rightarrow> string \<Rightarrow> int \<Rightarrow> ref list" where
  "SearchInJsonWithKey fts h query key limit = with_key_loop h query key (json fts) []"

text \<open>\<open>FTS._SearchInJson\<close>: \<open>limit\<close> is a parameter and is never read.\<close>

fun json_fields_loop ::
  "(string \<rightharpoonup> bool) \<Rightarrow> string \<Rightarrow> ref \<Rightarrow> (string \<times> string) list \<Rightarrow> ref list \<Rightarrow> ref list" where
  "json_fields_loop ks query r [] result = result"
| "json_fields_loop ks query r ((key, v) # rest) result =
     (if \<not> flag_at ks key then json_fields_loop ks query r rest result
      else if ContainsIgnoreCase v query then json_fields_loop ks query r rest (result @ [r])
      else json_fields_loop ks query r rest result)"

fun json_loop ::
  "jheap \<Rightarrow> (string \<rightharpoonup> bool) \<Rightarrow> string \<Rightarrow> ref list \<Rightarrow> ref list \<Rightarrow> ref list" where
  "json_loop h ks query [] result = result"
| "json_loop h ks query (r # rest) result =
     json_loop h ks query rest (json_fields_loop ks query r (h r) result)"

definition SearchInJson :: "FTS \<Rightarrow> jheap \<Rightarrow> string \<Rightarrow> int \<Rightarrow> (string \<rightharpoonup> bool) \<Rightarrow> ref list" where
  "SearchInJson fts h query limit ks = json_loop h ks query (json fts) []"

text \<open>
  What a caller can do with a record map it was handed: \<open>m[k] = v\<close> on the map object
  \<open>r\<close>. What the store holds is what its \<open>json\<close> slice reads through the heap.
\<close>

definition map_assign :: "jheap \<Rightarrow> ref \<Rightarrow> string \<Rightarrow> string \<Rightarrow> jheap" where
  "map_assign h r k v = h(r := AList.update k v (h r))"

definition store_view :: "jheap \<Rightarrow> FTS \<Rightarrow> (string \<times> string) list list" where
  "store_view h fts = map h (json fts)"

text \<open>
  The state of scenario 4 of the spec: three records with the names "red car",
  "red bike" and "blue car" (the map objects 10, 11 and 12 of the heap, at positions
  0, 1 and 2 of \<open>json\<close>), indexed on \<open>name\<close>.
\<close>

definition heap4 :: jheap where
  "heap4 = (\<lambda>r. [])
     (10 := [(''name'', ''red car'')],
      11 := [(''name'', ''red bike'')],
      12 := [(''name'', ''blue car'')])"

definition fts4 :: FTS where
  "fts4 = \<lparr> json = [10, 11, 12],
            keys = [''red'', ''car'', ''bike'', ''blue''],
            cache = map_of [(''red'', [0, 1]), (''car'', [0, 2]), (''bike'', [1]), (''blue'', [2])] \<rparr>"

definition name_schema :: "string \<rightharpoonup> bool" where
  "name_schema = map_of [(''name'', True)]"

section \<open>The record store shared by the two cache packages\<close>

text \<open>
  A record is a \<open>map[string]any\<close>. The values follow the variant of the spec (string,
  integer, boolean, list, nested map, absent); floating-point numbers are left out, no
  function below looks inside a number.
\<close>

datatype any =
    VString string
  | VInt int
  | VBool bool
  | VList "any list"
  | VMap "(string \<times> any) list"
  | VNil

text \<open>
  The store is a \<open>map[string]map[string]any\<close>: one outer map object from a record key to
  the reference of the record's field map. Outer and inner map objects live in the heap;
  an outer map variable holds a reference or is nil (\<open>None\<close>). Reading or ranging over a
  nil map finds no entry; assigning to an entry of a nil map panics. A field map is
  written only while it is ranged over, so a nil field map behaves as an empty one and
  has no case of its own.
\<close>

type_synonym fields = "(string \<times> any) list"
type_synonym table = "(string \<times> ref) list"

record heap =
  tables :: "ref \<Rightarrow> table"
  recs :: "ref \<Rightarrow> fields"

definition table_of :: "heap \<Rightarrow> ref option \<Rightarrow> table" where
  "table_of h m = (case m of None \<Rightarrow> [] | Some d \<Rightarrow> tables h d)"

text \<open>\<open>_, ok := m[k]\<close>.\<close>

definition has_key :: "('k \<times> 'v) list \<Rightarrow> 'k \<Rightarrow> bool" where
  "has_key m k = (map_of m k \<noteq> None)"

text \<open>\<open>m[k] = v\<close> on the inner map object \<open>r\<close>, and on the outer map object \<open>d\<close>.\<close>

definition rec_assign :: "heap \<Rightarrow> ref \<Rightarrow> string \<Rightarrow> any \<Rightarrow> heap" where
  "rec_assign h r k v = h\<lparr>recs := (recs h)(r := AList.update k v (recs h r))\<rparr>"

definition table_assign :: "heap \<Rightarrow> ref \<Rightarrow> string \<Rightarrow> ref \<Rightarrow> heap" where
  "table_assign h d k r = h\<lparr>tables := (tables h)(d := AList.update k r (tables h d))\<rparr>"

text \<open>
  The \<open>Cache\<close> struct of both packages: \<open>data\<close> is the store, \<open>ft\<close> the pointer to the
  full-text index (nil is \<open>None\<close>). The mutex is not modelled: every exported function
  below is its body under the lock.
\<close>

record 'ft Cache =
  data :: "ref option"
  ft :: "'ft option"

text \<open>
  The loop both packages run before loading a caller's map: every key of the store is
  looked up in the caller's map \<open>d\<close>, and when it is absent the store's record is
  assigned into \<open>d\<close>. The loop ranges over the store's entries as they are when it starts.
\<close>

fun copy_loop :: "heap \<Rightarrow> ref option \<Rightarrow> table \<Rightarrow> error option \<times> heap" where
  "copy_loop h d [] = (None, h)"
| "copy_loop h d ((k, r) # rest) =
     (if has_key (table_of h d) k then (Some (KeyCollision k), h)
      else (case d of
              None \<Rightarrow> (Some NilMapAssignment, h)
            | Some m \<Rightarrow> copy_loop (table_assign h m k r) d rest))"

text \<open>
  Reading the snapshot file belongs to the environment: the JSON variants take what
  \<open>ReadJson(file)\<close> returned, an error or the reference of the map it built (whose
  objects are in the heap already).
\<close>

section \<open>Tokeniser, value extractor and token index, from the spec\<close>

text \<open>
  Modelled from the spec: the tokeniser is not in the sources. Spec 4.1: trim outer
  whitespace, split on runs of whitespace, strip the leading and trailing punctuation
  set (the minimum set of the spec), fold ASCII letters to lower case, discard tokens
  shorter than the minimum word length.
\<close>

fun fields_acc :: "string \<Rightarrow> string \<Rightarrow> string list" where
  "fields_acc w [] = (if w = [] then [] else [w])"
| "fields_acc w (c # cs) =
     (if isSpace c then (if w = [] then fields_acc [] cs else w # fields_acc [] cs)
      else fields_acc (w @ [c]) cs)"

text \<open>Modelled from the spec: the split on runs of whitespace of spec 4.1; leading and trailing whitespace gives no piece.\<close>

definition Fields :: "string \<Rightarrow> string list" where
  "Fields s = fields_acc [] s"

text \<open>Modelled from the spec: the punctuation set of spec 4.1.\<close>

definition isPunct :: "char \<Rightarrow> bool" where
  "isPunct c = (c \<in> set (''.,;:!?()[]{}'' @ [CHR 0x22, CHR 0x27]))"

text \<open>Modelled from the spec: stripping the leading and trailing punctuation of a piece (spec 4.1).\<close>

definition strip_punct :: "string \<Rightarrow> string" where
  "strip_punct s = rev (dropWhile isPunct (rev (dropWhile isPunct s)))"

text \<open>Modelled from the spec: the tokeniser of spec 4.1 for a minimum word length.\<close>

definition tokenise :: "int \<Rightarrow> string \<Rightarrow> string list" where
  "tokenise minLen s =
     filter (\<lambda>t. minLen \<le> int (length t)) (map (\<lambda>p. ToLower (strip_punct p)) (Fields s))"

text \<open>
  Modelled from the spec: the value extractor is not in the sources. Spec 4.2: a string
  gives itself, a list the extractions of its elements in order, a nested map the
  extractions of its values in order, any other value nothing; empty strings are
  skipped.
\<close>

fun extract_strings :: "any \<Rightarrow> string list" where
  "extract_strings (VString s) = (if s = [] then [] else [s])"
| "extract_strings (VList vs) = concat (map extract_strings vs)"
| "extract_strings (VMap kvs) = concat (map (\<lambda>kv. extract_strings (snd kv)) kvs)"
| "extract_strings v = []"

text \<open>
  Modelled from the spec: the token index with its two caps is not in the sources.
  Spec 3 and 4.3: a token maps to the ordered list of the record keys that contain it,
  without duplicates; \<open>maxWords\<close> bounds the number of distinct tokens and \<open>maxBytes\<close> the
  bytes of all tokens plus all posting entries, \<open>-1\<close> disables a cap; an addition that
  would exceed a cap fails with cap-exceeded and leaves the index as it was.
\<close>

type_synonym words = "(string \<times> string list) list"

text \<open>Modelled from the spec: the posting of a token in the index; a missing token has the empty posting (spec 4.3, \<open>lookup\<close>).\<close>

definition words_at :: "words \<Rightarrow> string \<Rightarrow> string list" where
  "words_at w t = (case map_of w t of None \<Rightarrow> [] | Some ks \<Rightarrow> ks)"

text \<open>Modelled from the spec: the byte accounting of spec 4.3, the bytes of all tokens plus all posting entries.\<close>

definition byte_cost :: "words \<Rightarrow> int" where
  "byte_cost w =
     sum_list (map (\<lambda>e. int (length (fst e)) + sum_list (map (\<lambda>k. int (length k)) (snd e))) w)"

text \<open>Modelled from the spec: \<open>add(token, recordKey)\<close> of spec 4.3 with the cap check before the mutation.\<close>

definition add_word :: "int \<Rightarrow> int \<Rightarrow> words \<Rightarrow> string \<Rightarrow> string \<Rightarrow> error + words" where
  "add_word maxW maxB w token key =
     (if key \<in> set (words_at w token) then Inr w
      else (let w' = AList.update token (words_at w token @ [key]) w in
            if maxW \<noteq> - 1 \<and> maxW < int (length w') then Inl CapExceeded
            else if maxB \<noteq> - 1 \<and> maxB < byte_cost w' then Inl CapExceeded
            else Inr w'))"

text \<open>Modelled from the spec: adding the tokens of one value for one record key, stopping at the first cap violation.\<close>

fun add_words :: "int \<Rightarrow> int \<Rightarrow> words \<Rightarrow> string list \<Rightarrow> string \<Rightarrow> error option \<times> words" where
  "add_words maxW maxB w [] key = (None, w)"
| "add_words maxW maxB w (t # ts) key =
     (case add_word maxW maxB w t key of
        Inl e \<Rightarrow> (Some e, w)
      | Inr w' \<Rightarrow> add_words maxW maxB w' ts key)"

section \<open>Package hermes: \<open>FTInit\<close>, \<open>FTInitWithMap\<close>, \<open>FTInitWithJson\<close>, \<open>insert\<close>\<close>

text \<open>Modelled from the spec: the two shapes of a posting (spec 3).\<close>

datatype posting = Single string | Multi "string list"

record FullText =
  storage :: "(string \<times> posting) list"
  indices :: "(int \<times> string) list"
  index :: int
  maxSize :: int
  maxBytes :: int
  minWordLength :: int

text \<open>
  Modelled from the spec: \<open>WFTGetValue\<close> is called by \<open>insert\<close> and is not in the sources.
  It is the value extractor of spec 4.2; \<open>insert\<close> takes the \<open>len\<close> of its result, stores
  the result as the field's value and hands it to the temp storage as one value, so the
  extracted strings are joined by single spaces into one string.
\<close>

text \<open>Modelled from the spec: the strings of a value joined by single spaces.\<close>

fun join_words :: "string list \<Rightarrow> string" where
  "join_words [] = []"
| "join_words [w] = w"
| "join_words (w # ws) = w @ '' '' @ join_words ws"

text \<open>Modelled from the spec: \<open>WFTGetValue\<close>, the extracted strings as one string.\<close>

definition WFTGetValue :: "any \<Rightarrow> string" where
  "WFTGetValue v = join_words (extract_strings v)"

text \<open>
  Modelled from the spec: \<open>TempStorage\<close> with \<open>NewTempStorage\<close>, \<open>insert\<close>,
  \<open>cleanSingleArrays\<close> and \<open>updateFullText\<close> is not in the sources. Spec 4.4: the temp
  builder accumulates, per token, the ordered list of contributing record keys without
  duplicates (under the caps of the index), then collapses the singletons to \<open>Single\<close>
  and writes the result into the real index in one pass.
\<close>

type_synonym TempStorage = words

text \<open>Modelled from the spec: \<open>NewTempStorage\<close>, an empty temp builder (spec 4.4).\<close>

definition NewTempStorage :: "FullText \<Rightarrow> TempStorage" where
  "NewTempStorage f = []"

text \<open>Modelled from the spec: \<open>TempStorage.insert\<close>, the tokens of one value added for one record key (spec 4.4).\<close>

definition ts_insert :: "TempStorage \<Rightarrow> FullText \<Rightarrow> string \<Rightarrow> string \<Rightarrow> error option \<times> TempStorage" where
  "ts_insert ts f cacheKey ftv =
     add_words (maxSize f) (maxBytes f) ts (tokenise (minWordLength f) ftv) cacheKey"

text \<open>Modelled from the spec: \<open>cleanSingleArrays\<close>, singletons collapse to \<open>Single\<close> (spec 4.4).\<close>

definition cleanSingleArrays :: "TempStorage \<Rightarrow> (string \<times> posting) list" where
  "cleanSingleArrays ts =
     map (\<lambda>e. (fst e, (case snd e of [k] \<Rightarrow> Single k | ks \<Rightarrow> Multi ks))) ts"

text \<open>Modelled from the spec: \<open>updateFullText\<close>, the result is written into the index (spec 4.4).\<close>

definition updateFullText :: "(string \<times> posting) list \<Rightarrow> FullText \<Rightarrow> FullText" where
  "updateFullText ps f = f\<lparr>storage := ps\<rparr>"

text \<open>
  \<open>FullText.insert\<close>: the loop over the fields of one record, the loop over the records,
  and the function. The assignment \<open>(*data)[cacheKey][k] = ftv\<close> is made before
  \<open>ts.insert\<close> is called, so it stays when \<open>ts.insert\<close> fails. The final \<open>Println\<close> of the
  storage size is output only.
\<close>

fun insert_fields ::
  "FullText \<Rightarrow> string \<Rightarrow> ref \<Rightarrow> fields \<Rightarrow> heap \<times> TempStorage \<Rightarrow> error option \<times> heap \<times> TempStorage"
  where
  "insert_fields f cacheKey r [] (h, ts) = (None, h, ts)"
| "insert_fields f cacheKey r ((k, v) # rest) (h, ts) =
     (let ftv = WFTGetValue v in
      if length ftv = 0 then insert_fields f cacheKey r rest (h, ts)
      else (let h' = rec_assign h r k (VString ftv) in
            case ts_insert ts f cacheKey ftv of
              (Some e, ts') \<Rightarrow> (Some e, h', ts')
            | (None, ts') \<Rightarrow> insert_fields f cacheKey r rest (h', ts')))"

fun insert_records ::
  "FullText \<Rightarrow> table \<Rightarrow> heap \<times> TempStorage \<Rightarrow> error option \<times> heap \<times> TempStorage" where
  "insert_records f [] (h, ts) = (None, h, ts)"
| "insert_records f ((cacheKey, r) # rest) (h, ts) =
     (case insert_fields f cacheKey r (recs h r) (h, ts) of
        (Some e, st) \<Rightarrow> (Some e, st)
      | (None, st) \<Rightarrow> insert_records f rest st)"

definition insert_ft :: "FullText \<Rightarrow> ref option \<Rightarrow> heap \<Rightarrow> error option \<times> FullText \<times> heap" where
  "insert_ft f d h =
     (let ts = NewTempStorage f in
      case insert_records f (table_of h d) (h, ts) of
        (Some e, h', ts') \<Rightarrow> (Some e, f, h')
      | (None, h', ts') \<Rightarrow> (None, updateFullText (cleanSingleArrays ts') f, h'))"

definition new_FullText :: "int \<Rightarrow> int \<Rightarrow> int \<Rightarrow> FullText" where
  "new_FullText ms mb mwl =
     \<lparr>storage = [], indices = [], index = 0, maxSize = ms, maxBytes = mb, minWordLength = mwl\<rparr>"

definition ftInit ::
  "int \<Rightarrow> int \<Rightarrow> int \<Rightarrow> FullText Cache \<times> heap \<Rightarrow> error option \<times> FullText Cache \<times> heap" where
  "ftInit ms mb mwl st =
     (case st of (c, h) \<Rightarrow>
        (let f = new_FullText ms mb mwl in
         case insert_ft f (data c) h of
           (Some e, f', h') \<Rightarrow> (Some e, c, h')
         | (None, f', h') \<Rightarrow> (None, c\<lparr>ft := Some f'\<rparr>, h')))"

definition FTInit ::
  "int \<Rightarrow> int \<Rightarrow> int \<Rightarrow> FullText Cache \<times> heap \<Rightarrow> error option \<times> FullText Cache \<times> heap" where
  "FTInit ms mb mwl st =
     (case st of (c, h) \<Rightarrow>
        if ft c \<noteq> None then (Some AlreadyInitialised, c, h) else ftInit ms mb mwl (c, h))"

definition ftInitWithMap ::
  "ref option \<Rightarrow> int \<Rightarrow> int \<Rightarrow> int \<Rightarrow> FullText Cache \<times> heap \<Rightarrow> error option \<times> FullText Cache \<times> heap"
  where
  "ftInitWithMap d ms mb mwl st =
     (case st of (c, h) \<Rightarrow>
        (let f = new_FullText ms mb mwl in
         case copy_loop h d (table_of h (data c)) of
           (Some e, h1) \<Rightarrow> (Some e, c, h1)
         | (None, h1) \<Rightarrow>
             (case insert_ft f d h1 of
                (Some e, f', h2) \<Rightarrow> (Some e, c, h2)
              | (None, f', h2) \<Rightarrow> (None, c\<lparr>data := d, ft := Some f'\<rparr>, h2))))"

definition FTInitWithMap ::
  "ref option \<Rightarrow> int \<Rightarrow> int \<Rightarrow> int \<Rightarrow> FullText Cache \<times> heap \<Rightarrow> error option \<times> FullText Cache \<times> heap"
  where
  "FTInitWithMap d ms mb mwl st =
     (case st of (c, h) \<Rightarrow>
        if ft c \<noteq> None then (Some AlreadyInitialised, c, h)
        else ftInitWithMap d ms mb mwl (c, h))"

definition ftInitWithJson ::
  "error + ref option \<Rightarrow> int \<Rightarrow> int \<Rightarrow> int \<Rightarrow> FullText Cache \<times> heap
     \<Rightarrow> error option \<times> FullText Cache \<times> heap" where
  "ftInitWithJson file ms mb mwl st =
     (case file of
        Inl err \<Rightarrow> (Some err, st)
      | Inr d \<Rightarrow> ftInitWithMap d ms mb mwl st)"

definition FTInitWithJson ::
  "error + ref option \<Rightarrow> int \<Rightarrow> int \<Rightarrow> int \<Rightarrow> FullText Cache \<times> heap
     \<Rightarrow> error option \<times> FullText Cache \<times> heap" where
  "FTInitWithJson file ms mb mwl st =
     (case st of (c, h) \<Rightarrow>
        if ft c \<noteq> None then (Some AlreadyInitialised, c, h)
        else ftInitWithJson file ms mb mwl (c, h))"

section \<open>Package cache: \<open>InitFT\<close>, \<open>InitFTWithMap\<close>, \<open>InitFTWithJson\<close>\<close>

record cache_FullText =
  wordCache :: words
  maxWords :: int
  maxSizeBytes :: int
  isInitialized :: bool

text \<open>
  Modelled from the spec: \<open>loadCacheData\<close> and \<open>clean\<close> are called by the init functions
  and are not in the sources. Loading indexes, for every record and every field named
  in the schema, the tokens of the extracted strings (this package has no minimum word
  length: empty tokens are dropped) and stops at the first cap violation; it does not
  write to the records. \<open>clean\<close> clears the partial state of a failed load.
\<close>



text \<open>Modelled from the spec: the tokens of one field value (spec 4.1 and 4.2).\<close>

definition field_tokens :: "any \<Rightarrow> string list" where
  "field_tokens v = concat (map (tokenise 1) (extract_strings v))"

text \<open>Modelled from the spec: the fields of one record, those named in the schema only (spec 3, Schema).\<close>

fun load_fields ::
  "(string \<rightharpoonup> bool) \<Rightarrow> string \<Rightarrow> fields \<Rightarrow> cache_FullText \<Rightarrow> error option \<times> cache_FullText" where
  "load_fields schema itemKey [] f = (None, f)"
| "load_fields schema itemKey ((k, v) # rest) f =
     (if \<not> flag_at schema k then load_fields schema itemKey rest f
      else (case add_words (maxWords f) (maxSizeBytes f) (wordCache f) (field_tokens v) itemKey of
              (Some e, w) \<Rightarrow> (Some e, f\<lparr>wordCache := w\<rparr>)
            | (None, w) \<Rightarrow> load_fields schema itemKey rest (f\<lparr>wordCache := w\<rparr>)))"

text \<open>Modelled from the spec: the records of the map that is loaded.\<close>

fun load_records ::
  "heap \<Rightarrow> (string \<rightharpoonup> bool) \<Rightarrow> table \<Rightarrow> cache_FullText \<Rightarrow> error option \<times> cache_FullText" where
  "load_records h schema [] f = (None, f)"
| "load_records h schema ((itemKey, r) # rest) f =
     (case load_fields schema itemKey (recs h r) f of
        (Some e, f') \<Rightarrow> (Some e, f')
      | (None, f') \<Rightarrow> load_records h schema rest f')"

text \<open>Modelled from the spec: \<open>FullText.loadCacheData\<close> (not in the sources).\<close>

definition loadCacheData ::
  "cache_FullText \<Rightarrow> heap \<Rightarrow> ref option \<Rightarrow> (string \<rightharpoonup> bool) \<Rightarrow> error option \<times> cache_FullText" where
  "loadCacheData f h d schema = load_records h schema (table_of h d) f"

text \<open>Modelled from the spec: \<open>FullText.clean\<close> (not in the sources), the partial state of a failed load is cleared.\<close>

definition clean :: "cache_FullText \<Rightarrow> cache_FullText" where
  "clean f = f\<lparr>wordCache := [], isInitialized := False\<rparr>"

definition new_cache_FullText :: "int \<Rightarrow> int \<Rightarrow> cache_FullText" where
  "new_cache_FullText mw msb =
     \<lparr>wordCache = [], maxWords = mw, maxSizeBytes = msb, isInitialized = False\<rparr>"

definition ft_initialized :: "cache_FullText Cache \<Rightarrow> bool" where
  "ft_initialized c = (case ft c of None \<Rightarrow> False | Some f \<Rightarrow> isInitialized f)"

definition initFT ::
  "int \<Rightarrow> int \<Rightarrow> (string \<rightharpoonup> bool) \<Rightarrow> cache_FullText Cache \<times> heap
     \<Rightarrow> error option \<times> cache_FullText Cache \<times> heap" where
  "initFT mw msb schema st =
     (case st of (c, h) \<Rightarrow>
        (case loadCacheData (new_cache_FullText mw msb) h (data c) schema of
           (Some e, f) \<Rightarrow> (Some e, c\<lparr>ft := Some (clean f)\<rparr>, h)
         | (None, f) \<Rightarrow> (None, c\<lparr>ft := Some (f\<lparr>isInitialized := True\<rparr>)\<rparr>, h)))"

definition InitFT ::
  "int \<Rightarrow> int \<Rightarrow> (string \<rightharpoonup> bool) \<Rightarrow> cache_FullText Cache \<times> heap
     \<Rightarrow> error option \<times> cache_FullText Cache \<times> heap" where
  "InitFT mw msb schema st =
     (case st of (c, h) \<Rightarrow>
        if ft_initialized c then (Some AlreadyInitialised, c, h) else initFT mw msb schema (c, h))"

definition initFTWithMap ::
  "ref option \<Rightarrow> int \<Rightarrow> int \<Rightarrow> (string \<rightharpoonup> bool) \<Rightarrow> cache_FullText Cache \<times> heap
     \<Rightarrow> error option \<times> cache_FullText Cache \<times> heap" where
  "initFTWithMap d mw msb schema st =
     (case st of (c, h) \<Rightarrow>
        (let c0 = c\<lparr>ft := Some (new_cache_FullText mw msb)\<rparr> in
         case copy_loop h d (table_of h (data c)) of
           (Some e, h1) \<Rightarrow> (Some e, c0, h1)
         | (None, h1) \<Rightarrow>
             (case loadCacheData (new_cache_FullText mw msb) h1 d schema of
                (Some e, f) \<Rightarrow> (Some e, c0\<lparr>ft := Some (clean f)\<rparr>, h1)
              | (None, f) \<Rightarrow>
                  (None, c0\<lparr>data := d, ft := Some (f\<lparr>isInitialized := True\<rparr>)\<rparr>, h1))))"

definition InitFTWithMap ::
  "ref option \<Rightarrow> int \<Rightarrow> int \<Rightarrow> (string \<rightharpoonup> bool) \<Rightarrow> cache_FullText Cache \<times> heap
     \<Rightarrow> error option \<times> cache_FullText Cache \<times> heap" where
  "InitFTWithMap d mw msb schema st =
     (case st of (c, h) \<Rightarrow>
        if ft_initialized c then (Some AlreadyInitialised, c, h)
        else initFTWithMap d mw msb schema (c, h))"

definition initFTWithJson ::
  "error + ref option \<Rightarrow> int \<Rightarrow> int \<Rightarrow> (string \<rightharpoonup> bool) \<Rightarrow> cache_FullText Cache \<times> heap
     \<Rightarrow> error option \<times> cache_FullText Cache \<times> heap" where
  "initFTWithJson file mw msb schema st =
     (case file of
        Inl err \<Rightarrow> (Some err, st)
      | Inr d \<Rightarrow> initFTWithMap d mw msb schema st)"

definition InitFTWithJson ::
  "error + ref option \<Rightarrow> int \<Rightarrow> int \<Rightarrow> (string \<rightharpoonup> bool) \<Rightarrow> cache_FullText Cache \<times> heap
     \<Rightarrow> error option \<times> cache_FullText Cache \<times> heap" where
  "InitFTWithJson file mw msb schema st =
     (case st of (c, h) \<Rightarrow>
        if ft_initialized c then (Some AlreadyInitialised, c, h)
        else initFTWithJson file mw msb schema (c, h))"

section \<open>Calls and example states\<close>

text \<open>
  "Any FT-init variant" of a claim: the three exported functions of each package, as one
  function of the call made.
\<close>

datatype init_call = Plain | WithMap "ref option" | WithJson "error + ref option"

definition hermes_init ::
  "init_call \<Rightarrow> int \<Rightarrow> int \<Rightarrow> int \<Rightarrow> FullText Cache \<times> heap \<Rightarrow> error option \<times> FullText Cache \<times> heap"
  where
  "hermes_init call ms mb mwl st =
     (case call of
        Plain \<Rightarrow> FTInit ms mb mwl st
      | WithMap d \<Rightarrow> FTInitWithMap d ms mb mwl st
      | WithJson file \<Rightarrow> FTInitWithJson file ms mb mwl st)"

definition cache_init ::
  "init_call \<Rightarrow> int \<Rightarrow> int \<Rightarrow> (string \<rightharpoonup> bool) \<Rightarrow> cache_FullText Cache \<times> heap
     \<Rightarrow> error option \<times> cache_FullText Cache \<times> heap" where
  "cache_init call mw msb schema st =
     (case call of
        Plain \<Rightarrow> InitFT mw msb schema st
      | WithMap d \<Rightarrow> InitFTWithMap d mw msb schema st
      | WithJson file \<Rightarrow> InitFTWithJson file mw msb schema st)"

text \<open>
  What the copying loop leaves in a caller's map \<open>t\<close> after it has assigned the entries
  \<open>es\<close> of the store, and what \<open>insert\<close> leaves in a field it has indexed.
\<close>

definition copy_all :: "table \<Rightarrow> table \<Rightarrow> table" where
  "copy_all t es = fold (\<lambda>e. AList.update (fst e) (snd e)) es t"

definition rewrite_field :: "string \<times> any \<Rightarrow> string \<times> any" where
  "rewrite_field e =
     (fst e, if WFTGetValue (snd e) = [] then snd e else VString (WFTGetValue (snd e)))"

text \<open>The heap after the copying loop has assigned the entries \<open>es\<close> into the map \<open>m\<close>.\<close>

definition copied :: "heap \<Rightarrow> ref \<Rightarrow> table \<Rightarrow> heap" where
  "copied h m es = h\<lparr>tables := (tables h)(m := copy_all (tables h m) es)\<rparr>"

text \<open>
  What one pass of the loop of \<open>insert\<close> over an entry does to the record map it ranges
  over, when \<open>ts.insert\<close> succeeds.
\<close>

definition field_step :: "string \<times> any \<Rightarrow> fields \<Rightarrow> fields" where
  "field_step e m =
     (if WFTGetValue (snd e) = [] then m
      else AList.update (fst e) (VString (WFTGetValue (snd e))) m)"

text \<open>
  An example heap: the store is the outer map 1 with the records \<open>a\<close> and \<open>b\<close>; the outer
  maps 2 and 3 are maps a caller passes, 2 with the key \<open>b\<close> of the store and 3 without a
  key of the store.
\<close>

definition heap0 :: heap where
  "heap0 = \<lparr> tables = (\<lambda>r. [])
               (1 := [(''a'', 10), (''b'', 11)],
                2 := [(''b'', 12)],
                3 := [(''c'', 12)]),
             recs = (\<lambda>r. [])
               (10 := [(''name'', VString ''red car''), (''age'', VInt 17)],
                11 := [(''name'', VList [VString ''x'', VString ''y''])],
                12 := [(''name'', VString ''blue'')]) \<rparr>"

definition cache0 :: "FullText Cache" where
  "cache0 = \<lparr> data = Some 1, ft = None \<rparr>"

definition cache0c :: "cache_FullText Cache" where
  "cache0c = \<lparr> data = Some 1, ft = None \<rparr>"

text \<open>The same store with the full-text index already initialised, in each package.\<close>

definition cache1 :: "FullText Cache" where
  "cache1 = \<lparr> data = Some 1, ft = Some (new_FullText (- 1) (- 1) 1) \<rparr>"

definition cache1c :: "cache_FullText Cache" where
  "cache1c = \<lparr> data = Some 1, ft = Some ((new_cache_FullText (- 1) (- 1))\<lparr>isInitialized := True\<rparr>) \<rparr>"

section \<open>The searches: loops\<close>

lemma strict_loop_eq:
  "strict_loop fts p acc =
     (if list_all (in_range fts) p then Inr (acc @ map (\<lambda>i. json fts ! nat i) p)
      else Inl IndexOutOfRange)"
  by (induction p arbitrary: acc) (simp_all add: json_at_def in_range_def)

lemma posting_loop_appends:
  "posting_loop fts p (res, ind) = Inr (res', ind') \<Longrightarrow>
     \<exists>post. res' = res @ post \<and> set post \<subseteq> set (json fts) \<and> length post \<le> length p
        \<and> length ind' = length ind"
proof (induction p arbitrary: res ind)
  case Nil
  then show ?case by simp
next
  case (Cons i p)
  show ?case
  proof (cases "i < 0 \<or> int (length ind) \<le> i")
    case True
    with Cons.prems show ?thesis by simp
  next
    case inr: False
    show ?thesis
    proof (cases "ind ! nat i = - 1")
      case True
      with inr Cons.prems have "posting_loop fts p (res, ind) = Inr (res', ind')" by simp
      from Cons.IH[OF this] show ?thesis by auto
    next
      case False
      with inr Cons.prems obtain r where r: "json_at fts i = Inr r"
        and rest: "posting_loop fts p (res @ [r], ind[nat i := - 1]) = Inr (res', ind')"
        by (auto split: sum.splits)
      from r have "r \<in> set (json fts)" by (auto simp: json_at_def split: if_splits)
      with Cons.IH[OF rest] show ?thesis by auto
    qed
  qed
qed


lemma keys_loop_subset:
  "keys_loop fts q limit ks (res, ind) = Inr (res', ind') \<Longrightarrow>
     set res' \<subseteq> set res \<union> set (json fts)"
proof (induction ks arbitrary: res ind)
  case Nil
  then show ?case by simp
next
  case (Cons k ks)
  show ?case
  proof (cases "int (length res) \<ge> limit \<or> \<not> Contains k q")
    case True
    with Cons show ?thesis by (auto split: if_splits)
  next
    case False
    with Cons.prems obtain res1 ind1 where
        p: "posting_loop fts (cache_at fts k) (res, ind) = Inr (res1, ind1)" and
        rest: "keys_loop fts q limit ks (res1, ind1) = Inr (res', ind')"
        by (auto split: sum.splits)
    from posting_loop_appends[OF p] obtain post where
      "res1 = res @ post" "set post \<subseteq> set (json fts)" by auto
    with Cons.IH[OF rest] show ?thesis by auto
  qed
qed


lemma Search_subset_json:
  assumes "Search fts query limit strict = Inr (result, marks)"
  shows "set result \<subseteq> set (json fts)"
proof (cases "query = [] \<or> \<not> strict")
  case True
  with assms keys_loop_subset[of fts query limit "keys fts" "[]"] show ?thesis
    by (auto simp: Search_def split: if_splits)
next
  case False
  with assms obtain p where p: "list_all (in_range fts) p"
    and res: "result = map (\<lambda>i. json fts ! nat i) p"
    by (auto simp: Search_def strict_loop_eq split: option.splits if_splits)
  have "json fts ! nat i \<in> set (json fts)" if "i \<in> set p" for i
  proof -
    from p that have "in_range fts i" by (simp add: list_all_iff)
    then have "nat i < length (json fts)" unfolding in_range_def by linarith
    then show ?thesis by simp
  qed
  with res show ?thesis by auto
qed

text \<open>
  The marker slice does its work: when the records of \<open>json\<close> are pairwise different map
  objects, the non-strict branch of \<open>_Search\<close> returns no record twice.
\<close>

lemma posting_loop_marks:
  assumes "distinct (json fts)" and "length ind = length (json fts)" and "distinct res"
    and "\<forall>i<length (json fts). (ind ! i = - 1) = (json fts ! i \<in> set res)"
    and "posting_loop fts p (res, ind) = Inr (res', ind')"
  shows "distinct res' \<and> length ind' = length (json fts) \<and>
         (\<forall>i<length (json fts). (ind' ! i = - 1) = (json fts ! i \<in> set res'))"
  using assms
proof (induction p arbitrary: res ind)
  case Nil
  then show ?case by simp
next
  case (Cons i p)
  show ?case
  proof (cases "i < 0 \<or> int (length ind) \<le> i")
    case True
    with Cons.prems show ?thesis by simp
  next
    case inr: False
    show ?thesis
    proof (cases "ind ! nat i = - 1")
      case True
      with inr Cons.prems have "posting_loop fts p (res, ind) = Inr (res', ind')" by simp
      with Cons.IH Cons.prems show ?thesis by blast
    next
      case False
      with inr Cons.prems obtain r where r: "json_at fts i = Inr r"
        and rest: "posting_loop fts p (res @ [r], ind[nat i := - 1]) = Inr (res', ind')"
        by (auto split: sum.splits)
      from r inr Cons.prems(2) have req: "r = json fts ! nat i" and lt: "nat i < length (json fts)"
        by (auto simp: json_at_def split: if_splits)
      from False lt Cons.prems(4) req have notin: "r \<notin> set res" by auto
      have a: "distinct (res @ [r])" using notin Cons.prems(3) by simp
      have b: "length (ind[nat i := - 1]) = length (json fts)" using Cons.prems(2) by simp
      have c: "\<forall>j<length (json fts). ((ind[nat i := - 1]) ! j = - 1) = (json fts ! j \<in> set (res @ [r]))"
      proof (intro allI impI)
        fix j assume j: "j < length (json fts)"
        show "((ind[nat i := - 1]) ! j = - 1) = (json fts ! j \<in> set (res @ [r]))"
        proof (cases "j = nat i")
          case True
          with lt Cons.prems(2) req show ?thesis by simp
        next
          case False
          with j lt Cons.prems(1) req have "json fts ! j \<noteq> r" by (simp add: nth_eq_iff_index_eq)
          with False j Cons.prems(4) show ?thesis by simp
        qed
      qed
      from Cons.IH[OF Cons.prems(1) b a c rest] show ?thesis .
    qed
  qed
qed

lemma keys_loop_marks:
  assumes "distinct (json fts)" and "length ind = length (json fts)" and "distinct res"
    and "\<forall>i<length (json fts). (ind ! i = - 1) = (json fts ! i \<in> set res)"
    and "keys_loop fts q limit ks (res, ind) = Inr (res', ind')"
  shows "distinct res'"
  using assms
proof (induction ks arbitrary: res ind)
  case Nil
  then show ?case by simp
next
  case (Cons k ks)
  show ?case
  proof (cases "int (length res) \<ge> limit")
    case True
    with Cons.prems show ?thesis by simp
  next
    case lt: False
    show ?thesis
    proof (cases "Contains k q")
      case False
      with lt Cons.prems have "keys_loop fts q limit ks (res, ind) = Inr (res', ind')" by simp
      with Cons.IH Cons.prems show ?thesis by blast
    next
      case True
      with lt Cons.prems obtain res1 ind1 where
        p: "posting_loop fts (cache_at fts k) (res, ind) = Inr (res1, ind1)" and
        rest: "keys_loop fts q limit ks (res1, ind1) = Inr (res', ind')"
        by (auto split: sum.splits)
      from posting_loop_marks[OF Cons.prems(1-4) p] Cons.IH[OF Cons.prems(1) _ _ _ rest]
      show ?thesis by blast
    qed
  qed
qed

lemma Search_nonstrict_distinct:
  assumes "distinct (json fts)" and "Search fts query limit False = Inr (result, marks)"
  shows "distinct result"
proof (cases "query = []")
  case True
  with assms show ?thesis by (simp add: Search_def)
next
  case False
  with assms(2) have "keys_loop fts query limit (keys fts) ([], replicate (length (json fts)) 0)
      = Inr (result, marks)" by (simp add: Search_def)
  from keys_loop_marks[OF assms(1) _ _ _ this] show ?thesis by simp
qed

text \<open>Evaluation of the model on concrete states.\<close>

lemmas ev = Search_def fts4_def heap4_def name_schema_def cache_at_def json_at_def flag_at_def
  SearchWithSpaces_def TrimSpace_def isSpace_def SearchInJson_def SearchInJsonWithKey_def
  ContainsIgnoreCase_def ToLower_def lower_char_def str_at_def store_view_def map_assign_def

section \<open>The searches: claims\<close>

text \<open>
  C2 (the multi-word non-strict search is the conjunction of the per-token candidate
  sets, in the discovery order of the first token). \<open>_SearchWithSpaces\<close> does not
  intersect: it keeps a record of a word's result when one of its fields named in \<open>keys\<close>
  contains the whole query string. In the state of scenario 4 the record "red car"
  (object 10) is found by the token "car" and by the token "red", so it satisfies every
  token of the query "car red"; the search for "car red" returns nothing.
\<close>

theorem SearchWithSpaces_not_conjunction:
  "Search fts4 ''car'' 10 False = Inr ([10, 12], [- 1, 0, - 1]) \<and>
   Search fts4 ''red'' 10 False = Inr ([10, 11], [- 1, - 1, 0]) \<and>
   SearchWithSpaces fts4 heap4 ''car red'' 10 False name_schema = Inr ([], [])"
  by (simp add: ev)




text \<open>
  C4 (a strict search returns the records of the posting of the query token, in posting
  order, truncated to \<open>limit\<close>). As the code has it: the query is looked up as it is
  given, the whole posting is returned in posting order and \<open>limit\<close> is not read; a
  position outside \<open>json\<close> panics.
\<close>

theorem Search_strict_posting:
  "Search fts query limit True =
     (if query = [] then Inr ([], [])
      else (case cache fts query of
              None \<Rightarrow> Inr ([], replicate (length (json fts)) 0)
            | Some p \<Rightarrow>
                if list_all (in_range fts) p then Inr (map (\<lambda>i. json fts ! nat i) p, p)
                else Inl IndexOutOfRange))"
  by (simp add: Search_def strict_loop_eq split: option.splits)

text \<open>Against C4 as stated: \<open>limit = 1\<close> and two records returned.\<close>

theorem Search_strict_counterexample:
  "Search fts4 ''red'' 1 True = Inr ([10, 11], [0, 1]) \<and> \<not> int (length [10, 11 :: ref]) \<le> 1"
  by (simp add: ev)

text \<open>
  C5 (no search returns a record twice). The query "red car" in the state of scenario 4:
  the record "red car" is appended once for the word "red" and once for the word "car".
\<close>

theorem SearchWithSpaces_duplicates:
  "SearchWithSpaces fts4 heap4 ''red car'' 10 False name_schema = Inr ([10, 10], []) \<and>
   \<not> distinct [10, 10 :: ref]"
  by (simp add: ev)

text \<open>
  C6 (\<open>SearchValues\<close> and \<open>SearchWithKey\<close> return at most \<open>limit\<close> records when
  \<open>limit > 0\<close>). \<open>_SearchInJson\<close> and \<open>_SearchInJsonWithKey\<close> take \<open>limit\<close> and never read it:
  with \<open>limit = 1\<close> both return the two records whose name contains "red".
\<close>

theorem SearchInJson_ignores_limit:
  "SearchInJson fts4 heap4 ''red'' 1 name_schema = [10, 11] \<and>
   SearchInJsonWithKey fts4 heap4 ''red'' ''name'' 1 = [10, 11]"
  by (simp add: ev)

text \<open>
  C7 (what a search returns is a snapshot: writing to a returned record map never changes
  the store). As the code has it: the maps of the result are the map objects of the
  store themselves, so for every returned map \<open>r\<close> there is a position of \<open>json\<close> that
  holds \<open>r\<close>, and after \<open>r[k] = v\<close> the store reads the changed map at that position.
\<close>

theorem Search_returns_store_maps:
  assumes "Search fts query limit strict = Inr (result, marks)" and "r \<in> set result"
  shows "\<exists>i<length (json fts). json fts ! i = r \<and>
           store_view (map_assign h r k v) fts ! i = AList.update k v (h r)"
proof -
  from Search_subset_json[OF assms(1)] assms(2) have "r \<in> set (json fts)" by blast
  then obtain i where "i < length (json fts)" "json fts ! i = r" by (auto simp: in_set_conv_nth)
  then have "i < length (json fts) \<and> json fts ! i = r \<and>
           store_view (map_assign h r k v) fts ! i = AList.update k v (h r)"
    by (simp add: store_view_def map_assign_def)
  then show ?thesis by blast
qed

theorem Search_returns_store_maps_witness:
  "Search fts4 ''bike'' 10 False = Inr ([11], [0, - 1, 0]) \<and>
   (\<exists>i<length (json fts4). json fts4 ! i = 11 \<and>
      store_view (map_assign heap4 11 ''name'' ''x'') fts4 ! i = AList.update ''name'' ''x'' (heap4 11))"
proof -
  have r: "Search fts4 ''bike'' 10 False = Inr ([11], [0, - 1, 0])" by (simp add: ev)
  from Search_returns_store_maps[OF r, of 11 heap4 "''name''" "''x''"] r show ?thesis by simp
qed

text \<open>
  Against C7 as stated: the search for "bike" returns the map object 11; after the caller
  assigns to its \<open>name\<close> field, the store's record at position 1 has changed.
\<close>

theorem Search_snapshot_counterexample:
  "Search fts4 ''bike'' 10 False = Inr ([11], [0, - 1, 0]) \<and>
   store_view heap4 fts4 ! 1 = [(''name'', ''red bike'')] \<and>
   store_view (map_assign heap4 11 ''name'' ''x'') fts4 ! 1 = [(''name'', ''x'')]"
  by (simp add: ev)

section \<open>The record store: frame facts\<close>

lemma tables_rec_assign: "tables (rec_assign h r k v) = tables h"
  by (simp add: rec_assign_def)

lemma recs_rec_assign: "recs (rec_assign h r k v) = (recs h)(r := AList.update k v (recs h r))"
  by (simp add: rec_assign_def)


lemma tables_table_assign:
  "tables (table_assign h d k r) = (tables h)(d := AList.update k r (tables h d))"
  by (simp add: table_assign_def)

lemma has_key_update: "has_key (AList.update k v t) k' = (k' = k \<or> has_key t k')"
  by (simp add: has_key_def update_conv')

lemma has_key_in_set: "has_key t k \<Longrightarrow> \<exists>r. (k, r) \<in> set t"
  by (auto simp: has_key_def dest: map_of_SomeD)


lemma has_key_Nil: "\<not> has_key [] k"
  by (simp add: has_key_def)

lemma update_skip_prefix:
  "k \<notin> fst ` set xs \<Longrightarrow> AList.update k v (xs @ ys) = xs @ AList.update k v ys"
  by (induction xs) auto

section \<open>The copying loop\<close>


text \<open>
  Every outcome of the loop: on success the caller's map has received every entry of
  the store; on a collision at \<open>k\<close> it has received the entries that come before \<open>k\<close>.
\<close>

lemma copied_Nil: "copied h m [] = h"
  by (simp add: copied_def copy_all_def)

lemma copied_Cons: "copied h m ((k, r) # es) = copied (table_assign h m k r) m es"
  by (simp add: copied_def copy_all_def table_assign_def)

lemma copy_loop_outcome:
  "copy_loop h (Some m) t = (e, h') \<Longrightarrow>
     (e = None \<and> h' = copied h m t) \<or>
     (\<exists>pre k r post. t = pre @ (k, r) # post \<and> e = Some (KeyCollision k) \<and> h' = copied h m pre)"
proof (induction t arbitrary: h)
  case Nil
  then show ?case by (simp add: copied_Nil)
next
  case (Cons x t)
  obtain k r where x: "x = (k, r)" by (cases x)
  show ?case
  proof (cases "has_key (table_of h (Some m)) k")
    case True
    with Cons.prems x have "x # t = [] @ (k, r) # t \<and> e = Some (KeyCollision k) \<and> h' = copied h m []"
      by (simp add: copied_Nil)
    then show ?thesis by blast
  next
    case False
    with Cons.prems x have run: "copy_loop (table_assign h m k r) (Some m) t = (e, h')" by simp
    from Cons.IH[OF run] show ?thesis
    proof
      assume "e = None \<and> h' = copied (table_assign h m k r) m t"
      then show ?thesis by (simp add: x copied_Cons)
    next
      assume "\<exists>pre k' r' post. t = pre @ (k', r') # post \<and> e = Some (KeyCollision k') \<and>
                h' = copied (table_assign h m k r) m pre"
      then obtain pre k' r' post where
        "t = pre @ (k', r') # post" "e = Some (KeyCollision k')"
        "h' = copied (table_assign h m k r) m pre" by blast
      then have "x # t = ((k, r) # pre) @ (k', r') # post \<and> e = Some (KeyCollision k') \<and>
                 h' = copied h m ((k, r) # pre)"
        by (simp add: x copied_Cons)
      then show ?thesis by blast
    qed
  qed
qed

text \<open>A key of the store that the caller's map holds stops the loop with a collision.\<close>

lemma copy_loop_collides:
  "(k, r) \<in> set t \<Longrightarrow> has_key (table_of h d) k \<Longrightarrow>
     \<exists>k' h'. copy_loop h d t = (Some (KeyCollision k'), h') \<and> k' \<in> fst ` set t"
proof (induction t arbitrary: h)
  case Nil
  then show ?case by simp
next
  case (Cons x t)
  obtain k1 r1 where x: "x = (k1, r1)" by (cases x)
  show ?case
  proof (cases "has_key (table_of h d) k1")
    case True
    with x show ?thesis by simp
  next
    case nk: False
    with Cons.prems x have in_t: "(k, r) \<in> set t" by auto
    from Cons.prems(2) obtain m where d: "d = Some m"
      by (cases d) (simp_all add: table_of_def has_key_Nil)
    from Cons.prems(2) d have "has_key (table_of (table_assign h m k1 r1) d) k"
      by (simp add: table_of_def tables_table_assign has_key_update)
    from Cons.IH[OF in_t this] obtain k' h' where
      "copy_loop (table_assign h m k1 r1) d t = (Some (KeyCollision k'), h')" "k' \<in> fst ` set t"
      by blast
    with nk d x show ?thesis by simp
  qed
qed


section \<open>\<open>insert\<close>\<close>

lemma add_words_error: "add_words maxW maxB w ts key = (Some e, w') \<Longrightarrow> e = CapExceeded"
  by (induction ts arbitrary: w)
     (auto simp: add_word_def Let_def split: if_splits sum.splits)

lemma ts_insert_error: "ts_insert ts f key ftv = (Some e, ts') \<Longrightarrow> e = CapExceeded"
  by (auto simp: ts_insert_def dest: add_words_error)

lemma insert_fields_frame:
  "insert_fields f key r fs (h, ts) = (e, h', ts') \<Longrightarrow>
     tables h' = tables h \<and> (\<forall>r'. r' \<noteq> r \<longrightarrow> recs h' r' = recs h r') \<and>
     (e = None \<or> e = Some CapExceeded)"
proof (induction fs arbitrary: h ts)
  case Nil
  then show ?case by simp
next
  case (Cons x fs)
  obtain k v where x: "x = (k, v)" by (cases x)
  show ?case
  proof (cases "WFTGetValue v = []")
    case True
    with Cons.prems x have "insert_fields f key r fs (h, ts) = (e, h', ts')" by simp
    from Cons.IH[OF this] show ?thesis .
  next
    case ne: False
    obtain e1 ts1 where t: "ts_insert ts f key (WFTGetValue v) = (e1, ts1)" by fastforce
    show ?thesis
    proof (cases e1)
      case None
      with ne t Cons.prems x have
        "insert_fields f key r fs (rec_assign h r k (VString (WFTGetValue v)), ts1) = (e, h', ts')"
        by (simp add: Let_def)
      from Cons.IH[OF this] show ?thesis
        by (simp add: tables_rec_assign recs_rec_assign)
    next
      case (Some err)
      with t have "err = CapExceeded" by (auto dest: ts_insert_error)
      with Some ne t Cons.prems x show ?thesis
        by (auto simp: Let_def tables_rec_assign recs_rec_assign)
    qed
  qed
qed

lemma insert_fields_success:
  "insert_fields f key r fs (h, ts) = (None, h', ts') \<Longrightarrow>
     recs h' r = fold field_step fs (recs h r)"
proof (induction fs arbitrary: h ts)
  case Nil
  then show ?case by simp
next
  case (Cons x fs)
  obtain k v where x: "x = (k, v)" by (cases x)
  show ?case
  proof (cases "WFTGetValue v = []")
    case True
    with Cons.prems x have "insert_fields f key r fs (h, ts) = (None, h', ts')" by simp
    from Cons.IH[OF this] True x show ?thesis by (simp add: field_step_def)
  next
    case ne: False
    obtain e1 ts1 where t: "ts_insert ts f key (WFTGetValue v) = (e1, ts1)" by fastforce
    with ne Cons.prems x have e1: "e1 = None" by (cases e1) (auto simp: Let_def)
    with ne t Cons.prems x have
      "insert_fields f key r fs (rec_assign h r k (VString (WFTGetValue v)), ts1) = (None, h', ts')"
      by (simp add: Let_def)
    from Cons.IH[OF this] ne x show ?thesis
      by (simp add: field_step_def recs_rec_assign)
  qed
qed

lemma fst_rewrite_field: "fst (rewrite_field e) = fst e"
  by (simp add: rewrite_field_def)

lemma keys_rewrite: "map fst (map rewrite_field fs) = map fst fs"
  by (simp add: fst_rewrite_field)

text \<open>
  Ranging over the entries of a map with distinct keys and assigning each rewritten
  value under its own key rewrites the map entry by entry.
\<close>

lemma fold_field_step:
  "distinct (map fst (pre @ fs)) \<Longrightarrow>
     fold field_step fs (map rewrite_field pre @ fs) = map rewrite_field (pre @ fs)"
proof (induction fs arbitrary: pre)
  case Nil
  then show ?case by simp
next
  case (Cons x fs)
  have "fst ` set (map rewrite_field pre) = fst ` set pre"
    by (simp add: image_image fst_rewrite_field)
  with Cons.prems have notin: "fst x \<notin> fst ` set (map rewrite_field pre)" by auto
  have step: "field_step x (map rewrite_field pre @ x # fs) = map rewrite_field (pre @ [x]) @ fs"
  proof (cases "WFTGetValue (snd x) = []")
    case True
    then have "rewrite_field x = x" by (simp add: rewrite_field_def)
    with True show ?thesis by (simp add: field_step_def)
  next
    case False
    have "AList.update (fst x) (VString (WFTGetValue (snd x))) (x # fs)
            = (fst x, VString (WFTGetValue (snd x))) # fs"
      by (cases x) simp
    with False notin show ?thesis
      by (simp add: field_step_def update_skip_prefix rewrite_field_def)
  qed
  from Cons.prems have "distinct (map fst ((pre @ [x]) @ fs))" by simp
  from Cons.IH[OF this] step show ?case by simp
qed

lemma WFTGetValue_VString: "WFTGetValue (VString s) = s"
  by (simp add: WFTGetValue_def)

lemma rewrite_field_idem: "rewrite_field (rewrite_field e) = rewrite_field e"
  by (simp add: rewrite_field_def WFTGetValue_VString)

lemma insert_records_frame:
  "insert_records f t (h, ts) = (e, h', ts') \<Longrightarrow>
     tables h' = tables h \<and> (e = None \<or> e = Some CapExceeded)"
proof (induction t arbitrary: h ts)
  case Nil
  then show ?case by simp
next
  case (Cons x t)
  obtain key r where x: "x = (key, r)" by (cases x)
  obtain e1 h1 ts1 where a: "insert_fields f key r (recs h r) (h, ts) = (e1, h1, ts1)"
    by (metis prod_cases3)
  from insert_fields_frame[OF a] have fr: "tables h1 = tables h" "e1 = None \<or> e1 = Some CapExceeded"
    by simp_all
  show ?case
  proof (cases e1)
    case None
    with a Cons.prems x have "insert_records f t (h1, ts1) = (e, h', ts')" by simp
    from Cons.IH[OF this] fr show ?thesis by simp
  next
    case (Some err)
    with a Cons.prems x fr show ?thesis by auto
  qed
qed

lemma insert_records_success:
  "insert_records f t (h, ts) = (None, h', ts') \<Longrightarrow>
   \<forall>r. distinct (map fst (recs h r)) \<Longrightarrow>
     recs h' r' = (if r' \<in> snd ` set t then map rewrite_field (recs h r') else recs h r')"
proof (induction t arbitrary: h ts)
  case Nil
  then show ?case by simp
next
  case (Cons x t)
  obtain key r where x: "x = (key, r)" by (cases x)
  obtain e1 h1 ts1 where a: "insert_fields f key r (recs h r) (h, ts) = (e1, h1, ts1)"
    by (metis prod_cases3)
  with Cons.prems(1) x have e1: "e1 = None" by (cases e1) auto
  with a Cons.prems(1) x have rest: "insert_records f t (h1, ts1) = (None, h', ts')" by simp
  from Cons.prems(2) have "distinct (map fst ([] @ recs h r))" by simp
  from fold_field_step[OF this] have "fold field_step (recs h r) (recs h r) = map rewrite_field (recs h r)"
    by simp
  with insert_fields_success[OF a[unfolded e1]]
  have h1r: "recs h1 r = map rewrite_field (recs h r)" by simp
  from insert_fields_frame[OF a] have h1o: "\<And>q. q \<noteq> r \<Longrightarrow> recs h1 q = recs h q" by simp
  have wf1: "\<forall>q. distinct (map fst (recs h1 q))"
  proof
    fix q show "distinct (map fst (recs h1 q))"
      using Cons.prems(2) h1r h1o[of q] by (cases "q = r") (simp_all add: fst_rewrite_field comp_def)
  qed
  from Cons.IH[OF rest wf1]
  have ih: "recs h' r' = (if r' \<in> snd ` set t then map rewrite_field (recs h1 r') else recs h1 r')" .
  show ?case
  proof (cases "r' = r")
    case True
    with ih h1r x show ?thesis by (simp add: rewrite_field_idem)
  next
    case False
    with ih h1o[of r'] x show ?thesis by auto
  qed
qed

lemma insert_ft_frame:
  "insert_ft f d h = (e, f', h') \<Longrightarrow> tables h' = tables h \<and> (e = None \<or> e = Some CapExceeded)"
proof -
  assume a: "insert_ft f d h = (e, f', h')"
  obtain e1 h1 ts1 where b: "insert_records f (table_of h d) (h, NewTempStorage f) = (e1, h1, ts1)"
    by (metis prod_cases3)
  from insert_records_frame[OF b] a b show ?thesis
    by (cases e1) (auto simp: insert_ft_def Let_def)
qed

lemma insert_ft_success:
  assumes "insert_ft f d h = (None, f', h')" and "\<forall>r. distinct (map fst (recs h r))"
  shows "recs h' r' =
           (if r' \<in> snd ` set (table_of h d) then map rewrite_field (recs h r') else recs h r')"
proof -
  obtain e1 h1 ts1 where b: "insert_records f (table_of h d) (h, NewTempStorage f) = (e1, h1, ts1)"
    by (metis prod_cases3)
  with assms(1) have "e1 = None" "h1 = h'"
    by (cases e1; simp add: insert_ft_def Let_def)+
  with b insert_records_success[OF _ assms(2)] show ?thesis by simp
qed

section \<open>Package hermes: the init functions\<close>



lemma ftInit_success:
  assumes "ftInit ms mb mwl (c, h) = (None, c', h')"
  shows "ft c' \<noteq> None \<and> data c' = data c"
proof -
  obtain e1 f1 h1 where a: "insert_ft (new_FullText ms mb mwl) (data c) h = (e1, f1, h1)"
    by (metis prod_cases3)
  with assms show ?thesis
    by (cases e1) (auto simp: ftInit_def Let_def)
qed



lemma hermes_init_guard:
  "ft c \<noteq> None \<Longrightarrow> hermes_init call ms mb mwl (c, h) = (Some AlreadyInitialised, c, h)"
  by (cases call) (simp_all add: hermes_init_def FTInit_def FTInitWithMap_def FTInitWithJson_def)

section \<open>Package cache: the init functions\<close>

lemma clean_uninit: "\<not> isInitialized (clean f)"
  by (simp add: clean_def)


lemma initFT_success:
  assumes "initFT mw msb schema (c, h) = (None, c', h')"
  shows "ft_initialized c' \<and> data c' = data c \<and> h' = h"
proof -
  obtain e1 f1 where a: "loadCacheData (new_cache_FullText mw msb) h (data c) schema = (e1, f1)"
    by fastforce
  with assms show ?thesis
    by (cases e1) (auto simp: initFT_def ft_initialized_def)
qed



lemma cache_init_guard:
  "ft_initialized c \<Longrightarrow> cache_init call mw msb schema (c, h) = (Some AlreadyInitialised, c, h)"
  by (cases call) (simp_all add: cache_init_def InitFT_def InitFTWithMap_def InitFTWithJson_def)

lemma has_key_iff: "has_key t k = (k \<in> fst ` set t)"
  by (simp add: has_key_def map_of_eq_None_iff)

lemma recs_copied: "recs (copied h m es) = recs h"
  by (simp add: copied_def)

lemma tables_copied: "tables (copied h m es) m = copy_all (tables h m) es"
  by (simp add: copied_def)

text \<open>Evaluation of the init functions on the example states.\<close>

lemmas iv = FTInit_def ftInit_def FTInitWithMap_def ftInitWithMap_def FTInitWithJson_def ftInitWithJson_def
  insert_ft_def NewTempStorage_def ts_insert_def cleanSingleArrays_def updateFullText_def
  new_FullText_def table_of_def has_key_def rec_assign_def table_assign_def WFTGetValue_def
  tokenise_def Fields_def strip_punct_def isPunct_def isSpace_def ToLower_def lower_char_def
  add_word_def words_at_def byte_cost_def heap0_def cache0_def cache0c_def
  InitFT_def initFT_def InitFTWithMap_def initFTWithMap_def InitFTWithJson_def initFTWithJson_def
  loadCacheData_def clean_def new_cache_FullText_def ft_initialized_def field_tokens_def flag_at_def
  name_schema_def hermes_init_def cache_init_def

section \<open>The init functions: claims\<close>




text \<open>
  C8 (\<open>FTInitWithMap\<close> and the snapshot variant fail with a key collision whenever a key
  of the incoming map is a key of the store, and the cache stays uninitialised). For an
  uninitialised cache of either package and a key \<open>k\<close> held by both maps, the call with
  the map, and the call with a snapshot that was read into that map, return the
  collision error for a key of the store and leave the cache uninitialised.
\<close>

theorem init_with_map_collision:
  "(ft c = None \<and> has_key (table_of h d) k \<and> has_key (table_of h (data c)) k \<longrightarrow>
      (\<exists>k' h'. FTInitWithMap d ms mb mwl (c, h) = (Some (KeyCollision k'), c, h') \<and>
               FTInitWithJson (Inr d) ms mb mwl (c, h) = (Some (KeyCollision k'), c, h') \<and>
               has_key (table_of h (data c)) k')) \<and>
   (\<not> ft_initialized cc \<and> has_key (table_of h d) k \<and> has_key (table_of h (data cc)) k \<longrightarrow>
      (\<exists>k' cc' h'. InitFTWithMap d mw msb schema (cc, h) = (Some (KeyCollision k'), cc', h') \<and>
                   InitFTWithJson (Inr d) mw msb schema (cc, h) = (Some (KeyCollision k'), cc', h') \<and>
                   has_key (table_of h (data cc)) k' \<and> \<not> ft_initialized cc' \<and> data cc' = data cc))"
proof (intro conjI impI)
  assume a: "ft c = None \<and> has_key (table_of h d) k \<and> has_key (table_of h (data c)) k"
  then obtain r where "(k, r) \<in> set (table_of h (data c))" by (auto dest: has_key_in_set)
  from copy_loop_collides[OF this] a obtain k' h' where
    cl: "copy_loop h d (table_of h (data c)) = (Some (KeyCollision k'), h')"
    and k': "k' \<in> fst ` set (table_of h (data c))" by blast
  from cl a have "FTInitWithMap d ms mb mwl (c, h) = (Some (KeyCollision k'), c, h') \<and>
               FTInitWithJson (Inr d) ms mb mwl (c, h) = (Some (KeyCollision k'), c, h') \<and>
               has_key (table_of h (data c)) k'"
    using k' by (simp add: FTInitWithMap_def FTInitWithJson_def ftInitWithJson_def
        ftInitWithMap_def has_key_iff)
  then show "\<exists>k' h'. FTInitWithMap d ms mb mwl (c, h) = (Some (KeyCollision k'), c, h') \<and>
               FTInitWithJson (Inr d) ms mb mwl (c, h) = (Some (KeyCollision k'), c, h') \<and>
               has_key (table_of h (data c)) k'" by blast
next
  assume a: "\<not> ft_initialized cc \<and> has_key (table_of h d) k \<and> has_key (table_of h (data cc)) k"
  then obtain r where "(k, r) \<in> set (table_of h (data cc))" by (auto dest: has_key_in_set)
  from copy_loop_collides[OF this] a obtain k' h' where
    cl: "copy_loop h d (table_of h (data cc)) = (Some (KeyCollision k'), h')"
    and k': "k' \<in> fst ` set (table_of h (data cc))" by blast
  let ?c = "cc\<lparr>ft := Some (new_cache_FullText mw msb)\<rparr>"
  from cl a have "InitFTWithMap d mw msb schema (cc, h) = (Some (KeyCollision k'), ?c, h') \<and>
                   InitFTWithJson (Inr d) mw msb schema (cc, h) = (Some (KeyCollision k'), ?c, h') \<and>
                   has_key (table_of h (data cc)) k' \<and> \<not> ft_initialized ?c \<and> data ?c = data cc"
    using k' by (simp add: InitFTWithMap_def InitFTWithJson_def initFTWithJson_def
        initFTWithMap_def has_key_iff ft_initialized_def new_cache_FullText_def)
  then show "\<exists>k' cc' h'. InitFTWithMap d mw msb schema (cc, h) = (Some (KeyCollision k'), cc', h') \<and>
                   InitFTWithJson (Inr d) mw msb schema (cc, h) = (Some (KeyCollision k'), cc', h') \<and>
                   has_key (table_of h (data cc)) k' \<and> \<not> ft_initialized cc' \<and> data cc' = data cc"
    by blast
qed

theorem init_with_map_collision_witness:
  "(\<exists>k' h'. FTInitWithMap (Some 2) (- 1) (- 1) 1 (cache0, heap0) = (Some (KeyCollision k'), cache0, h') \<and>
            FTInitWithJson (Inr (Some 2)) (- 1) (- 1) 1 (cache0, heap0)
              = (Some (KeyCollision k'), cache0, h') \<and>
            has_key (table_of heap0 (data cache0)) k') \<and>
   (\<exists>k' cc' h'. InitFTWithMap (Some 2) (- 1) (- 1) name_schema (cache0c, heap0)
                  = (Some (KeyCollision k'), cc', h') \<and>
                InitFTWithJson (Inr (Some 2)) (- 1) (- 1) name_schema (cache0c, heap0)
                  = (Some (KeyCollision k'), cc', h') \<and>
                has_key (table_of heap0 (data cache0c)) k' \<and>
                \<not> ft_initialized cc' \<and> data cc' = data cache0c)"
proof -
  have h1: "ft cache0 = None \<and> has_key (table_of heap0 (Some 2)) ''b'' \<and>
            has_key (table_of heap0 (data cache0)) ''b''"
    by (simp add: cache0_def heap0_def table_of_def has_key_def)
  have h2: "\<not> ft_initialized cache0c \<and> has_key (table_of heap0 (Some 2)) ''b'' \<and>
            has_key (table_of heap0 (data cache0c)) ''b''"
    by (simp add: cache0c_def heap0_def table_of_def has_key_def ft_initialized_def)
  note a = init_with_map_collision[THEN conjunct1, THEN mp, OF h1]
  note b = init_with_map_collision[THEN conjunct2, THEN mp, OF h2]
  show ?thesis
    apply (intro conjI)
     apply (rule a)
    apply (rule b)
    done
qed

text \<open>
  C9 (an FT-init call on an initialised index fails with already-initialised and changes
  nothing; a successful \<open>FTInit\<close> moves the index from uninitialised to initialised). For
  every init call of either package on an initialised cache the result is the
  already-initialised error with the cache and the heap as they were; and when \<open>FTInit\<close>
  (\<open>InitFT\<close>) returns no error, the cache was uninitialised before and is initialised
  after.
\<close>

theorem init_when_initialised:
  "(ft c \<noteq> None \<longrightarrow>
      hermes_init call ms mb mwl (c, h) = (Some AlreadyInitialised, c, h)) \<and>
   (ft_initialized cc \<longrightarrow>
      cache_init call mw msb schema (cc, h) = (Some AlreadyInitialised, cc, h)) \<and>
   (FTInit ms mb mwl (c, h) = (None, c', h') \<longrightarrow> ft c = None \<and> ft c' \<noteq> None) \<and>
   (InitFT mw msb schema (cc, h) = (None, cc', h') \<longrightarrow>
      \<not> ft_initialized cc \<and> ft_initialized cc')"
proof (intro conjI impI)
  assume "ft c \<noteq> None"
  then show "hermes_init call ms mb mwl (c, h) = (Some AlreadyInitialised, c, h)"
    by (rule hermes_init_guard)
next
  assume "ft_initialized cc"
  then show "cache_init call mw msb schema (cc, h) = (Some AlreadyInitialised, cc, h)"
    by (rule cache_init_guard)
next
  assume a: "FTInit ms mb mwl (c, h) = (None, c', h')"
  then show u: "ft c = None" by (cases "ft c = None") (simp_all add: FTInit_def)
  with a have "ftInit ms mb mwl (c, h) = (None, c', h')" by (simp add: FTInit_def)
  from ftInit_success[OF this] show "ft c' \<noteq> None" by simp
next
  assume a: "InitFT mw msb schema (cc, h) = (None, cc', h')"
  then show u: "\<not> ft_initialized cc" by (cases "ft_initialized cc") (simp_all add: InitFT_def)
  with a have "initFT mw msb schema (cc, h) = (None, cc', h')" by (simp add: InitFT_def)
  from initFT_success[OF this] show "ft_initialized cc'" by simp
qed

theorem init_when_initialised_witness:
  "hermes_init (WithMap (Some 3)) (- 1) (- 1) 1 (cache1, heap0) = (Some AlreadyInitialised, cache1, heap0) \<and>
   cache_init (WithMap (Some 3)) (- 1) (- 1) name_schema (cache1c, heap0)
     = (Some AlreadyInitialised, cache1c, heap0) \<and>
   fst (FTInit (- 1) (- 1) 1 (cache0, heap0)) = None \<and>
   ft cache0 = None \<and> ft (fst (snd (FTInit (- 1) (- 1) 1 (cache0, heap0)))) \<noteq> None \<and>
   fst (InitFT (- 1) (- 1) name_schema (cache0c, heap0)) = None \<and>
   \<not> ft_initialized cache0c \<and>
   ft_initialized (fst (snd (InitFT (- 1) (- 1) name_schema (cache0c, heap0))))"
proof -
  let ?R = "FTInit (- 1) (- 1) 1 (cache0, heap0)"
  let ?S = "InitFT (- 1) (- 1) name_schema (cache0c, heap0)"
  have i1: "ft cache1 \<noteq> None" by (simp add: cache1_def)
  have i2: "ft_initialized cache1c" by (simp add: cache1c_def ft_initialized_def)
  have r: "fst ?R = None" by (simp add: iv)
  then have R: "?R = (None, fst (snd ?R), snd (snd ?R))" by (simp add: prod_eq_iff)
  have s: "fst ?S = None" by (simp add: iv)
  then have S: "?S = (None, fst (snd ?S), snd (snd ?S))" by (simp add: prod_eq_iff)
  note a = init_when_initialised[THEN conjunct1, THEN mp, OF i1]
  note b = init_when_initialised[THEN conjunct2, THEN conjunct1, THEN mp, OF i2]
  note c = init_when_initialised[THEN conjunct2, THEN conjunct2, THEN conjunct1, THEN mp, OF R]
  note d = init_when_initialised[THEN conjunct2, THEN conjunct2, THEN conjunct2, THEN mp, OF S]
  show ?thesis
    apply (intro conjI)
           apply (rule a)
          apply (rule b)
         apply (rule r)
        apply (rule c[THEN conjunct1])
       apply (rule c[THEN conjunct2])
      apply (rule s)
     apply (rule d[THEN conjunct1])
    apply (rule d[THEN conjunct2])
    done
qed

text \<open>
  C10 (\<open>FTInitWithMap\<close> of package hermes mutates and keeps the caller's map). For an
  uninitialised cache, a caller's map object \<open>m\<close> and record maps with distinct keys:
  when the call fails with a collision at \<open>k\<close>, the caller's map has received the store
  entries that come before \<open>k\<close> and nothing else has changed; when the call succeeds,
  the caller's map has received every store entry, every record in it has each field
  replaced by its rewritten form (the extracted string where that is not empty), and
  the store of the cache is the map object \<open>m\<close> itself.
\<close>

theorem FTInitWithMap_callers_map:
  assumes "ft c = None"
    and "FTInitWithMap (Some m) ms mb mwl (c, h) = (e, c', h')"
    and "\<forall>r. distinct (map fst (recs h r))"
  shows "(\<forall>k. e = Some (KeyCollision k) \<longrightarrow>
            c' = c \<and> recs h' = recs h \<and>
            (\<exists>pre r post. table_of h (data c) = pre @ (k, r) # post \<and>
                           tables h' m = copy_all (tables h m) pre)) \<and>
         (e = None \<longrightarrow>
            data c' = Some m \<and> ft c' \<noteq> None \<and>
            tables h' m = copy_all (tables h m) (table_of h (data c)) \<and>
            (\<forall>r \<in> snd ` set (tables h' m). recs h' r = map rewrite_field (recs h r)))"
proof -
  let ?store = "table_of h (data c)"
  from assms(1,2) have run: "ftInitWithMap (Some m) ms mb mwl (c, h) = (e, c', h')"
    by (simp add: FTInitWithMap_def)
  obtain e1 h1 where cl: "copy_loop h (Some m) ?store = (e1, h1)" by fastforce
  from copy_loop_outcome[OF cl] show ?thesis
  proof
    assume ok: "e1 = None \<and> h1 = copied h m ?store"
    obtain e2 f2 h2 where ins: "insert_ft (new_FullText ms mb mwl) (Some m) h1 = (e2, f2, h2)"
      by (metis prod_cases3)
    note fr = insert_ft_frame[OF ins]
    show ?thesis
    proof (cases e2)
      case (Some err)
      with fr have "err = CapExceeded" by simp
      with run cl ok ins Some have "e = Some CapExceeded"
        unfolding ftInitWithMap_def by simp
      then show ?thesis by simp
    next
      case None
      with run cl ok ins have res: "e = None" "c' = c\<lparr>data := Some m, ft := Some f2\<rparr>" "h' = h2"
        unfolding ftInitWithMap_def by simp_all
      from ok have r1: "recs h1 = recs h" and t1: "tables h1 m = copy_all (tables h m) ?store"
        by (simp_all add: recs_copied tables_copied)
      from assms(3) r1 have wf1: "\<forall>r. distinct (map fst (recs h1 r))" by simp
      from fr have t2: "tables h2 = tables h1" by simp
      have rw: "recs h2 r = map rewrite_field (recs h r)" if "r \<in> snd ` set (tables h2 m)" for r
        using insert_ft_success[OF ins[unfolded None] wf1, of r] that t2 r1
        by (simp add: table_of_def)
      from res t1 t2 rw show ?thesis by simp
    qed
  next
    assume "\<exists>pre k r post. ?store = pre @ (k, r) # post \<and> e1 = Some (KeyCollision k) \<and>
              h1 = copied h m pre"
    then obtain pre k r post where
      st: "?store = pre @ (k, r) # post" and e1: "e1 = Some (KeyCollision k)"
      and h1: "h1 = copied h m pre" by blast
    from run cl e1 have res: "e = Some (KeyCollision k)" "c' = c" "h' = h1"
      unfolding ftInitWithMap_def by simp_all
    from h1 have "recs h1 = recs h" "tables h1 m = copy_all (tables h m) pre"
      by (simp_all add: recs_copied tables_copied)
    with res st show ?thesis by auto
  qed
qed

theorem FTInitWithMap_callers_map_witness:
  "fst (FTInitWithMap (Some 2) (- 1) (- 1) 1 (cache0, heap0)) = Some (KeyCollision ''b'') \<and>
   (\<exists>pre r post. table_of heap0 (data cache0) = pre @ (''b'', r) # post \<and>
       tables (snd (snd (FTInitWithMap (Some 2) (- 1) (- 1) 1 (cache0, heap0)))) 2
         = copy_all (tables heap0 2) pre) \<and>
   fst (FTInitWithMap (Some 3) (- 1) (- 1) 1 (cache0, heap0)) = None \<and>
   data (fst (snd (FTInitWithMap (Some 3) (- 1) (- 1) 1 (cache0, heap0)))) = Some 3 \<and>
   tables (snd (snd (FTInitWithMap (Some 3) (- 1) (- 1) 1 (cache0, heap0)))) 3
     = copy_all (tables heap0 3) (table_of heap0 (data cache0)) \<and>
   recs (snd (snd (FTInitWithMap (Some 3) (- 1) (- 1) 1 (cache0, heap0)))) 11
     = map rewrite_field (recs heap0 11)"
proof -
  let ?R = "FTInitWithMap (Some 2) (- 1) (- 1) 1 (cache0, heap0)"
  let ?S = "FTInitWithMap (Some 3) (- 1) (- 1) 1 (cache0, heap0)"
  have u: "ft cache0 = None" by (simp add: cache0_def)
  have wf: "\<forall>r. distinct (map fst (recs heap0 r))" by (simp add: heap0_def)
  have r: "fst ?R = Some (KeyCollision ''b'')" by (simp add: iv)
  have R: "?R = (fst ?R, fst (snd ?R), snd (snd ?R))" by simp
  have s: "fst ?S = None" by (simp add: iv Let_def)
  have S: "?S = (fst ?S, fst (snd ?S), snd (snd ?S))" by simp
  have t: "tables (snd (snd ?S)) 3 = [(''c'', 12), (''a'', 10), (''b'', 11)]" by (simp add: iv Let_def)
  note a = FTInitWithMap_callers_map[OF u R wf, THEN conjunct1, rule_format, OF r]
  note b = FTInitWithMap_callers_map[OF u S wf, THEN conjunct2, rule_format, OF s]
  have in3: "11 \<in> snd ` set (tables (snd (snd ?S)) 3)" by (simp add: t)
  show ?thesis
    apply (intro conjI)
         apply (rule r)
        apply (rule a[THEN conjunct2, THEN conjunct2])
       apply (rule s)
      apply (rule b[THEN conjunct1])
     apply (rule b[THEN conjunct2, THEN conjunct2, THEN conjunct1])
    apply (rule b[THEN conjunct2, THEN conjunct2, THEN conjunct2, rule_format, OF in3])
    done
qed

end
